theory Spec2Isabelle
  imports Main "HOL-Library.Sublist"
begin

section \<open>Python strings\<close>

text \<open>
  A Python \<^verbatim>\<open>str\<close> is a sequence of Unicode code points. Isabelle's \<^typ>\<open>char\<close> has
  only 256 values, so a text is a list of code points; \<open>str\<close> reads an ASCII literal.
\<close>

type_synonym codepoint = nat
type_synonym pystr = "codepoint list"

definition str :: "string \<Rightarrow> pystr" where
  "str s = map of_char s"

definition newline :: codepoint where
  "newline = 10"

text \<open>
  The characters matched by \<^verbatim>\<open>\s\<close> in a \<^verbatim>\<open>str\<close> pattern: those for which
  \<^verbatim>\<open>str.isspace\<close> holds (tab, LF, VT, FF, CR, the separators 0x1C to 0x1F, space, NEL,
  no-break space and the Unicode space separators).
\<close>

definition is_space :: "codepoint \<Rightarrow> bool" where
  "is_space c = (c \<in> set [9, 10, 11, 12, 13, 28, 29, 30, 31, 32, 133, 160, 5760,
      8192, 8193, 8194, 8195, 8196, 8197, 8198, 8199, 8200, 8201, 8202,
      8232, 8233, 8239, 8287, 12288])"

section \<open>The fragment of \<^verbatim>\<open>re\<close> used by the checker\<close>

text \<open>
  The three patterns of the checker are built from literal text, \<^verbatim>\<open>\s\<close>,
  \<^verbatim>\<open>.\<close> (compiled without DOTALL: any character but a newline), \<^verbatim>\<open>[^\n]\<close>,
  concatenation, \<^verbatim>\<open>|\<close>, \<^verbatim>\<open>*\<close> and \<^verbatim>\<open>+\<close>. None of them contains \<^verbatim>\<open>^\<close> or
  \<^verbatim>\<open>$\<close>, the only constructs whose meaning \<^verbatim>\<open>re.MULTILINE\<close> changes.
\<close>

datatype pattern =
    Str pystr
  | Space
  | Dot
  | NotNewline
  | Seq pattern pattern
  | Alt pattern pattern
  | Star pattern

definition Plus :: "pattern \<Rightarrow> pattern" where
  "Plus p = Seq p (Star p)"

fun seqs :: "pattern list \<Rightarrow> pattern" where
  "seqs [] = Str []"
| "seqs [p] = p"
| "seqs (p # q # ps) = Seq p (seqs (q # ps))"

fun strip_prefix :: "pystr \<Rightarrow> pystr \<Rightarrow> pystr option" where
  "strip_prefix [] s = Some s"
| "strip_prefix (c # w) [] = None"
| "strip_prefix (c # w) (x # s) = (if x = c then strip_prefix w s else None)"

text \<open>
  \<open>ends p s\<close> lists what is left of \<open>s\<close> after each way of matching \<open>p\<close> at the start of
  \<open>s\<close>, the longest repetition first as the backtracking engine tries them. An iteration
  of a repetition that consumes nothing is not repeated.
\<close>

fun ends :: "pattern \<Rightarrow> pystr \<Rightarrow> pystr list" where
  "ends (Str w) s = (case strip_prefix w s of None \<Rightarrow> [] | Some t \<Rightarrow> [t])"
| "ends Space s = (case s of [] \<Rightarrow> [] | x # t \<Rightarrow> if is_space x then [t] else [])"
| "ends Dot s = (case s of [] \<Rightarrow> [] | x # t \<Rightarrow> if x \<noteq> newline then [t] else [])"
| "ends NotNewline s = (case s of [] \<Rightarrow> [] | x # t \<Rightarrow> if x \<noteq> newline then [t] else [])"
| "ends (Seq p q) s = concat (map (ends q) (ends p s))"
| "ends (Alt p q) s = ends p s @ ends q s"
| "ends (Star p) s =
     concat (map (ends (Star p)) (filter (\<lambda>t. length t < length s) (ends p s))) @ [s]"

text \<open>
  The equation of a repetition mentions the repetition again, so it is unfolded only where
  a proof asks for it.
\<close>

declare ends.simps(7) [simp del]

text \<open>
  \<^verbatim>\<open>re.search(pattern, string)\<close> tries every start position from the left and returns a
  match object or \<^verbatim>\<open>None\<close>; the checker uses only its truth value.
\<close>

fun re_search :: "pattern \<Rightarrow> pystr \<Rightarrow> bool" where
  "re_search p [] = (ends p [] \<noteq> [])"
| "re_search p (x # s) = (ends p (x # s) \<noteq> [] \<or> re_search p s)"

section \<open>The checker\<close>

definition DOCSTRING_MISSING_PURPOSE :: string where
  "DOCSTRING_MISSING_PURPOSE = ''filter-docstring-missing-purpose''"

definition DOCSTRING_MISSING_TYPE :: string where
  "DOCSTRING_MISSING_TYPE = ''filter-docstring-missing-type''"

definition DOCSTRING_MISSING_TRIGGER :: string where
  "DOCSTRING_MISSING_TRIGGER = ''filter-docstring-missing-trigger''"

text \<open>\<^verbatim>\<open>r"Purpose:\s*.*\n"\<close>\<close>

definition purpose_pattern :: pattern where
  "purpose_pattern = seqs [Str (str ''Purpose:''), Star Space, Star Dot, Str [newline]]"

text \<open>\<^verbatim>\<open>r"Filter Type:\s*.*\n"\<close>\<close>

definition type_pattern :: pattern where
  "type_pattern = seqs [Str (str ''Filter Type:''), Star Space, Star Dot, Str [newline]]"

text \<open>
  \<^verbatim>\<open>-\s*Repository:\s*[^\n]+\s*-\s*Path:\s*[^\n]+\s*-\s*Function\s*or\s*Method:\s*[^\n]+\<close>
\<close>

definition trigger_list_pattern :: pattern where
  "trigger_list_pattern = seqs
     [Str (str ''-''), Star Space, Str (str ''Repository:''), Star Space, Plus NotNewline,
      Star Space,
      Str (str ''-''), Star Space, Str (str ''Path:''), Star Space, Plus NotNewline,
      Star Space,
      Str (str ''-''), Star Space, Str (str ''Function''), Star Space, Str (str ''or''),
      Star Space, Str (str ''Method:''), Star Space, Plus NotNewline]"

text \<open>\<^verbatim>\<open>r"Trigger:\s*(NA|-\s*Repository: ... )"\<close>\<close>

definition trigger_pattern :: pattern where
  "trigger_pattern =
     seqs [Str (str ''Trigger:''), Star Space, Alt (Str (str ''NA'')) trigger_list_pattern]"

definition required_sections :: "(pattern \<times> string) list" where
  "required_sections =
     [(purpose_pattern, DOCSTRING_MISSING_PURPOSE),
      (type_pattern, DOCSTRING_MISSING_TYPE),
      (trigger_pattern, DOCSTRING_MISSING_TRIGGER)]"

text \<open>
  The class-definition node handed over by the linter: its name, the host's subtype
  query, and the docstring node's value when the class has a docstring.
\<close>

record classdef =
  name :: pystr
  is_subtype_of :: "pystr \<Rightarrow> bool"
  doc_node :: "pystr option"

record diagnostic =
  msgid :: string
  node :: classdef
  args :: "pystr list"

text \<open>The state reachable from \<^verbatim>\<open>self\<close>: the diagnostics reported so far.\<close>

record checker =
  reported :: "diagnostic list"

definition add_message :: "string \<Rightarrow> classdef \<Rightarrow> pystr list \<Rightarrow> checker \<Rightarrow> checker" where
  "add_message m n a self = self\<lparr>reported := reported self @ [\<lparr>msgid = m, node = n, args = a\<rparr>]\<rparr>"

text \<open>
  The loop of \<^verbatim>\<open>_check_docstring_format\<close> over \<open>required_sections\<close>, with the local list
  \<open>error_messages\<close> as accumulator.
\<close>

fun check_loop :: "(pattern \<times> string) list \<Rightarrow> pystr \<Rightarrow> string list \<Rightarrow> string list" where
  "check_loop [] docstring error_messages = error_messages"
| "check_loop ((pat, error_message) # rest) docstring error_messages =
     check_loop rest docstring
       (if \<not> re_search pat docstring then error_messages @ [error_message]
        else error_messages)"

definition check_docstring_format :: "checker \<Rightarrow> pystr \<Rightarrow> string list \<times> checker" where
  "check_docstring_format self docstring = (check_loop required_sections docstring [], self)"

text \<open>
  \<open>report_all\<close> is the loop of \<^verbatim>\<open>visit_classdef\<close> over the returned messages. The decorator
  \<^verbatim>\<open>only_required_for_messages\<close> tells the linter which messages the method serves; it
  does not change what the method does when it is called.
\<close>

fun report_all :: "string list \<Rightarrow> classdef \<Rightarrow> checker \<Rightarrow> checker" where
  "report_all [] n self = self"
| "report_all (error_message # rest) n self =
     report_all rest n (add_message error_message n [name n] self)"

definition visit_classdef :: "classdef \<Rightarrow> checker \<Rightarrow> checker" where
  "visit_classdef n self =
     (if \<not> is_subtype_of n (str ''openedx_filters.tooling.OpenEdxPublicFilter'') then self
      else if name n = str ''OpenEdxPublicFilter'' then self
      else
        let docstring = (case doc_node n of Some v \<Rightarrow> v | None \<Rightarrow> []);
            (error_messages, self') = check_docstring_format self docstring
        in if error_messages = [] then self'
           else report_all error_messages n self')"

section \<open>The Purpose rule in the specification's words\<close>

text \<open>
  The specification describes the Purpose rule as: the text contains a line beginning with
  the literal token, followed by arbitrary trailing content up to and including a newline.
  \<open>line_starts s\<close> lists the suffixes of \<open>s\<close> that begin a line: \<open>s\<close> itself and what
  follows each newline. \<open>spec_section_line\<close> is that description, kept apart from the
  pattern of the source so that the two can be compared.
\<close>

fun after_newlines :: "pystr \<Rightarrow> pystr list" where
  "after_newlines [] = []"
| "after_newlines (x # s) = (if x = newline then s # after_newlines s else after_newlines s)"

definition line_starts :: "pystr \<Rightarrow> pystr list" where
  "line_starts s = s # after_newlines s"

definition spec_section_line :: "pystr \<Rightarrow> pystr \<Rightarrow> bool" where
  "spec_section_line token s =
     list_ex (\<lambda>l. case strip_prefix token l of None \<Rightarrow> False | Some rest \<Rightarrow> newline \<in> set rest)
       (line_starts s)"

section \<open>Properties of the matcher\<close>

text \<open>\<open>single P p\<close>: the pattern \<open>p\<close> matches exactly one character, one that satisfies \<open>P\<close>.\<close>

definition single :: "(codepoint \<Rightarrow> bool) \<Rightarrow> pattern \<Rightarrow> bool" where
  "single P p = (\<forall>s. ends p s = (case s of [] \<Rightarrow> [] | x # t \<Rightarrow> if P x then [t] else []))"

lemma strip_prefix_iff: "strip_prefix w s = Some t \<longleftrightarrow> s = w @ t"
  by (induction w s rule: strip_prefix.induct) auto

lemma in_ends_Str: "c \<in> set (ends (Str w) s) \<longleftrightarrow> s = w @ c"
  using strip_prefix_iff [of w s c] by (cases "strip_prefix w s") auto

lemma in_ends_Alt: "c \<in> set (ends (Alt p q) s) \<longleftrightarrow> c \<in> set (ends p s) \<or> c \<in> set (ends q s)"
  by (simp only: ends.simps(6) set_append Un_iff)


lemma single_Space: "single is_space Space"
  by (simp add: single_def)

lemma single_Dot: "single (\<lambda>x. x \<noteq> newline) Dot"
  by (simp add: single_def)

lemma single_NotNewline: "single (\<lambda>x. x \<noteq> newline) NotNewline"
  by (simp add: single_def)

lemma ends_Star_Nil:
  assumes "single P p"
  shows "ends (Star p) [] = [[]]"
proof -
  from assms have "ends p [] = []" by (simp add: single_def)
  then show ?thesis by (subst ends.simps(7)) (simp del: ends.simps)
qed

lemma ends_Star_Cons:
  assumes "single P p"
  shows "ends (Star p) (x # s) = (if P x then ends (Star p) s @ [x # s] else [x # s])"
proof -
  from assms have "ends p (x # s) = (if P x then [s] else [])" by (simp add: single_def)
  then show ?thesis by (subst ends.simps(7)) (simp del: ends.simps)
qed

lemma set_ends_Star_single:
  assumes "single P p"
  shows "set (ends (Star p) s) = {t. \<exists>u. s = u @ t \<and> list_all P u}"
proof (induction s)
  case Nil
  show ?case by (simp add: ends_Star_Nil [OF assms] del: ends.simps)
next
  case (Cons x s)
  show ?case
  proof (intro set_eqI iffI)
    fix t
    assume "t \<in> set (ends (Star p) (x # s))"
    then consider "P x" "t \<in> set (ends (Star p) s)" | "t = x # s"
      by (auto simp: ends_Star_Cons [OF assms] simp del: ends.simps split: if_splits)
    then show "t \<in> {t. \<exists>u. x # s = u @ t \<and> list_all P u}"
    proof cases
      case 1
      with Cons.IH obtain u where "s = u @ t" "list_all P u" by blast
      with 1 have "x # s = (x # u) @ t \<and> list_all P (x # u)" by simp
      then show ?thesis by blast
    next
      case 2
      then have "x # s = [] @ t \<and> list_all P []" by simp
      then show ?thesis by blast
    qed
  next
    fix t
    assume "t \<in> {t. \<exists>u. x # s = u @ t \<and> list_all P u}"
    then obtain u where u: "x # s = u @ t" "list_all P u" by blast
    show "t \<in> set (ends (Star p) (x # s))"
    proof (cases u)
      case Nil
      with u have "t = x # s" by simp
      then show ?thesis by (simp add: ends_Star_Cons [OF assms] del: ends.simps)
    next
      case (Cons y u')
      with u have "P x" "s = u' @ t" "list_all P u'" by simp_all
      with Cons.IH have "t \<in> set (ends (Star p) s)" by blast
      with \<open>P x\<close> show ?thesis by (simp add: ends_Star_Cons [OF assms] del: ends.simps)
    qed
  qed
qed

lemma re_search_iff: "re_search p s \<longleftrightarrow> (\<exists>a t. s = a @ t \<and> ends p t \<noteq> [])"
proof (induction s)
  case Nil
  then show ?case by simp
next
  case (Cons x s)
  show ?case
  proof
    assume "re_search p (x # s)"
    then consider "ends p (x # s) \<noteq> []" | "re_search p s" by auto
    then show "\<exists>a t. x # s = a @ t \<and> ends p t \<noteq> []"
    proof cases
      case 1
      then have "x # s = [] @ (x # s) \<and> ends p (x # s) \<noteq> []" by simp
      then show ?thesis by blast
    next
      case 2
      with Cons.IH obtain a t where "s = a @ t" "ends p t \<noteq> []" by blast
      then have "x # s = (x # a) @ t \<and> ends p t \<noteq> []" by simp
      then show ?thesis by blast
    qed
  next
    assume "\<exists>a t. x # s = a @ t \<and> ends p t \<noteq> []"
    then obtain a t where at: "x # s = a @ t" "ends p t \<noteq> []" by blast
    show "re_search p (x # s)"
    proof (cases a)
      case Nil
      with at have "ends p (x # s) \<noteq> []" by simp
      then show ?thesis by simp
    next
      case (Cons y a')
      with at have "s = a' @ t" by simp
      with at Cons.IH have "re_search p s" by blast
      then show ?thesis by simp
    qed
  qed
qed

lemma in_ends_Seq: "c \<in> set (ends (Seq p q) s) \<longleftrightarrow> (\<exists>t. t \<in> set (ends p s) \<and> c \<in> set (ends q t))"
  by (auto simp only: ends.simps(5) set_concat set_map)

lemma in_ends_Star: "single P p \<Longrightarrow> c \<in> set (ends (Star p) s) \<longleftrightarrow> (\<exists>u. s = u @ c \<and> list_all P u)"
  by (simp only: set_ends_Star_single mem_Collect_eq)

lemma ends_Plus_singleI:
  assumes "single P p" "u \<noteq> []" "list_all P u"
  shows "c \<in> set (ends (Plus p) (u @ c))"
proof -
  from assms(2) obtain x u' where u: "u = x # u'" by (cases u) auto
  with assms(3) have px: "P x" and pu: "list_all P u'" by simp_all
  have "ends p (x # u' @ c) = [u' @ c]" using assms(1) px by (simp add: single_def)
  then have 1: "u' @ c \<in> set (ends p (u @ c))" using u by simp
  have 2: "c \<in> set (ends (Star p) (u' @ c))"
    unfolding in_ends_Star [OF assms(1)] using pu by blast
  show ?thesis unfolding Plus_def in_ends_Seq using 1 2 by blast
qed

lemma ends_nonempty: "ends p s \<noteq> [] \<longleftrightarrow> (\<exists>c. c \<in> set (ends p s))"
  by (cases "ends p s") auto

lemma section_line_ends:
  "ends (seqs [Str w, Star Space, Star Dot, Str [newline]]) t \<noteq> [] \<longleftrightarrow>
     (\<exists>b c. t = w @ b @ newline # c)"
proof
  assume "ends (seqs [Str w, Star Space, Star Dot, Str [newline]]) t \<noteq> []"
  then obtain c where "c \<in> set (ends (Seq (Str w) (Seq (Star Space) (Seq (Star Dot) (Str [newline])))) t)"
    unfolding ends_nonempty by (auto simp only: seqs.simps)
  then obtain t1 t2 t3 where
    1: "t1 \<in> set (ends (Str w) t)" and
    2: "t2 \<in> set (ends (Star Space) t1)" and
    3: "t3 \<in> set (ends (Star Dot) t2)" and
    4: "c \<in> set (ends (Str [newline]) t3)"
    unfolding in_ends_Seq by blast
  from 1 have "t = w @ t1" by (simp only: in_ends_Str)
  moreover from 2 obtain u where "t1 = u @ t2" by (auto simp only: in_ends_Star [OF single_Space])
  moreover from 3 obtain d where "t2 = d @ t3" by (auto simp only: in_ends_Star [OF single_Dot])
  moreover from 4 have "t3 = [newline] @ c" by (simp only: in_ends_Str)
  ultimately have "t = w @ (u @ d) @ newline # c" by simp
  then show "\<exists>b c. t = w @ b @ newline # c" by blast
next
  assume "\<exists>b c. t = w @ b @ newline # c"
  then obtain b c where t: "t = w @ b @ newline # c" by blast
  have "newline \<in> set (b @ newline # c)" by simp
  then obtain d c' where d: "b @ newline # c = d @ newline # c'" "newline \<notin> set d"
    by (meson split_list_first)
  have 1: "d @ newline # c' \<in> set (ends (Str w) t)"
    using t d by (simp only: in_ends_Str)
  have 2: "d @ newline # c' \<in> set (ends (Star Space) (d @ newline # c'))"
    unfolding in_ends_Star [OF single_Space] by (rule exI [of _ "[]"]) simp
  have 3: "newline # c' \<in> set (ends (Star Dot) (d @ newline # c'))"
    unfolding in_ends_Star [OF single_Dot] using d(2) by (intro exI [of _ d]) (auto simp: list_all_iff)
  have 4: "c' \<in> set (ends (Str [newline]) (newline # c'))"
    by (simp only: in_ends_Str) simp
  have "c' \<in> set (ends (Seq (Str w) (Seq (Star Space) (Seq (Star Dot) (Str [newline])))) t)"
    unfolding in_ends_Seq using 1 2 3 4 by blast
  then show "ends (seqs [Str w, Star Space, Star Dot, Str [newline]]) t \<noteq> []"
    unfolding ends_nonempty by (auto simp only: seqs.simps)
qed

lemma section_search:
  "re_search (seqs [Str w, Star Space, Star Dot, Str [newline]]) s \<longleftrightarrow>
     (\<exists>a b c. s = a @ w @ b @ newline # c)"
  unfolding re_search_iff section_line_ends by blast

lemma ends_SeqI: "t \<in> set (ends p s) \<Longrightarrow> c \<in> set (ends q t) \<Longrightarrow> c \<in> set (ends (Seq p q) s)"
  unfolding in_ends_Seq by blast

lemma ends_StrI: "c \<in> set (ends (Str w) (w @ c))"
  unfolding in_ends_Str by simp

lemma ends_Star_SpaceI: "list_all is_space u \<Longrightarrow> c \<in> set (ends (Star Space) (u @ c))"
  unfolding in_ends_Star [OF single_Space] by blast

lemma ends_Plus_NotNewlineI:
  "u \<noteq> [] \<Longrightarrow> newline \<notin> set u \<Longrightarrow> c \<in> set (ends (Plus NotNewline) (u @ c))"
  by (rule ends_Plus_singleI [OF single_NotNewline]) (auto simp: list_all_iff)

lemma ends_Seq_StrI: "c \<in> set (ends q t) \<Longrightarrow> c \<in> set (ends (Seq (Str w) q) (w @ t))"
  by (rule ends_SeqI [OF ends_StrI])

lemma ends_Seq_Star_SpaceI:
  "list_all is_space u \<Longrightarrow> c \<in> set (ends q t) \<Longrightarrow> c \<in> set (ends (Seq (Star Space) q) (u @ t))"
  by (rule ends_SeqI [OF ends_Star_SpaceI])

lemma ends_Seq_Plus_NotNewlineI:
  "u \<noteq> [] \<Longrightarrow> newline \<notin> set u \<Longrightarrow> c \<in> set (ends q t) \<Longrightarrow>
     c \<in> set (ends (Seq (Plus NotNewline) q) (u @ t))"
  by (rule ends_SeqI [OF ends_Plus_NotNewlineI])

lemma ends_Alt1I: "c \<in> set (ends p s) \<Longrightarrow> c \<in> set (ends (Alt p q) s)"
  unfolding in_ends_Alt by blast

lemma ends_Alt2I: "c \<in> set (ends q s) \<Longrightarrow> c \<in> set (ends (Alt p q) s)"
  unfolding in_ends_Alt by blast

lemma re_searchI: "c \<in> set (ends p t) \<Longrightarrow> re_search p (a @ t)"
  unfolding re_search_iff ends_nonempty by blast

lemma violations_distinct:
  "DOCSTRING_MISSING_PURPOSE \<noteq> DOCSTRING_MISSING_TYPE"
  "DOCSTRING_MISSING_PURPOSE \<noteq> DOCSTRING_MISSING_TRIGGER"
  "DOCSTRING_MISSING_TYPE \<noteq> DOCSTRING_MISSING_TRIGGER"
  by (simp_all add: DOCSTRING_MISSING_PURPOSE_def DOCSTRING_MISSING_TYPE_def
      DOCSTRING_MISSING_TRIGGER_def)

lemma check_result:
  "fst (check_docstring_format self s) =
     (if re_search purpose_pattern s then [] else [DOCSTRING_MISSING_PURPOSE]) @
     (if re_search type_pattern s then [] else [DOCSTRING_MISSING_TYPE]) @
     (if re_search trigger_pattern s then [] else [DOCSTRING_MISSING_TRIGGER])"
  by (simp add: check_docstring_format_def required_sections_def)

lemma missing_purpose_search:
  "DOCSTRING_MISSING_PURPOSE \<in> set (fst (check_docstring_format self s)) \<longleftrightarrow>
     \<not> re_search purpose_pattern s"
  using violations_distinct by (simp add: check_result)

lemma missing_trigger_search:
  "DOCSTRING_MISSING_TRIGGER \<in> set (fst (check_docstring_format self s)) \<longleftrightarrow>
     \<not> re_search trigger_pattern s"
  using violations_distinct by (auto simp: check_result)

lemma purpose_search:
  "re_search purpose_pattern s \<longleftrightarrow> (\<exists>a b c. s = a @ str ''Purpose:'' @ b @ newline # c)"
  unfolding purpose_pattern_def by (rule section_search)

lemma set_after_newlines: "set (after_newlines s) = {t. \<exists>a. s = a @ newline # t}"
proof (induction s)
  case Nil
  show ?case by simp
next
  case (Cons x s)
  show ?case
  proof (intro set_eqI iffI)
    fix t
    assume "t \<in> set (after_newlines (x # s))"
    then consider "x = newline" "t = s" | "t \<in> set (after_newlines s)"
      by (auto split: if_splits)
    then show "t \<in> {t. \<exists>a. x # s = a @ newline # t}"
    proof cases
      case 1
      then have "x # s = [] @ newline # t" by simp
      then show ?thesis by blast
    next
      case 2
      with Cons.IH obtain a where "s = a @ newline # t" by blast
      then have "x # s = (x # a) @ newline # t" by simp
      then show ?thesis by blast
    qed
  next
    fix t
    assume "t \<in> {t. \<exists>a. x # s = a @ newline # t}"
    then obtain a where a: "x # s = a @ newline # t" by blast
    show "t \<in> set (after_newlines (x # s))"
    proof (cases a)
      case Nil
      with a show ?thesis by simp
    next
      case (Cons y a')
      with a have "s = a' @ newline # t" by simp
      with Cons.IH have "t \<in> set (after_newlines s)" by blast
      then show ?thesis by simp
    qed
  qed
qed

lemma spec_section_line_iff:
  "spec_section_line token s \<longleftrightarrow>
     (\<exists>a b c. s = a @ token @ b @ newline # c \<and> (a = [] \<or> (\<exists>a'. a = a' @ [newline])))"
proof
  assume "spec_section_line token s"
  then obtain l rest where l: "l \<in> set (line_starts s)" "strip_prefix token l = Some rest"
    "newline \<in> set rest"
    by (auto simp: spec_section_line_def list_ex_iff split: option.splits)
  from l(2) have lr: "l = token @ rest" by (simp only: strip_prefix_iff)
  from l(3) obtain b c where bc: "rest = b @ newline # c" by (meson split_list)
  from l(1) consider "l = s" | a' where "s = a' @ newline # l"
    by (auto simp: line_starts_def set_after_newlines)
  then show "\<exists>a b c. s = a @ token @ b @ newline # c \<and> (a = [] \<or> (\<exists>a'. a = a' @ [newline]))"
  proof cases
    case 1
    with lr bc have "s = [] @ token @ b @ newline # c" by simp
    then show ?thesis by blast
  next
    case 2
    with lr bc have "s = (a' @ [newline]) @ token @ b @ newline # c" by simp
    then show ?thesis by blast
  qed
next
  assume "\<exists>a b c. s = a @ token @ b @ newline # c \<and> (a = [] \<or> (\<exists>a'. a = a' @ [newline]))"
  then obtain a b c where s: "s = a @ token @ b @ newline # c"
    and a: "a = [] \<or> (\<exists>a'. a = a' @ [newline])" by blast
  let ?l = "token @ b @ newline # c"
  have 1: "?l \<in> set (line_starts s)"
    using s a by (auto simp: line_starts_def set_after_newlines)
  have 2: "strip_prefix token ?l = Some (b @ newline # c)"
    by (simp only: strip_prefix_iff)
  have "(case strip_prefix token ?l of None \<Rightarrow> False | Some rest \<Rightarrow> newline \<in> set rest)"
    by (simp add: 2)
  with 1 show "spec_section_line token s"
    unfolding spec_section_line_def list_ex_iff by blast
qed

lemma spec_purpose_line_imp_search:
  "spec_section_line (str ''Purpose:'') s \<Longrightarrow> re_search purpose_pattern s"
  unfolding spec_section_line_iff purpose_search by blast

lemmas eval_defs = check_docstring_format_def required_sections_def purpose_pattern_def
  type_pattern_def trigger_pattern_def trigger_list_pattern_def Plus_def str_def
  ends.simps(7) is_space_def newline_def

lemma report_all_eq:
  "report_all ms n self =
     self\<lparr>reported := reported self @ map (\<lambda>m. \<lparr>msgid = m, node = n, args = [name n]\<rparr>) ms\<rparr>"
  by (induction ms arbitrary: self) (simp_all add: add_message_def)

section \<open>The claims\<close>

subsection \<open>The Purpose rule\<close>

text \<open>
  The purpose pattern has no \<^verbatim>\<open>^\<close>, so the token need not begin a line. In the indented
  text below no line begins with the token, the pattern matches, and the purpose violation
  is not reported.
\<close>

theorem purpose_rule_not_line_anchored:
  "\<not> (DOCSTRING_MISSING_PURPOSE \<in>
         set (fst (check_docstring_format \<lparr>reported = []\<rparr> (str ''  Purpose: x\<newline>''))) \<longleftrightarrow>
       \<not> spec_section_line (str ''Purpose:'') (str ''  Purpose: x\<newline>''))"
  by (simp add: eval_defs spec_section_line_def line_starts_def DOCSTRING_MISSING_PURPOSE_def
      DOCSTRING_MISSING_TYPE_def DOCSTRING_MISSING_TRIGGER_def)

text \<open>
  C1 (amended): for every docstring text, the purpose violation is in the result of the
  validation exactly when the text has no occurrence of the token \<^verbatim>\<open>Purpose:\<close>, at the
  start of a line or anywhere else, that is followed later by a newline.
\<close>

theorem missing_purpose_iff_no_token:
  "DOCSTRING_MISSING_PURPOSE \<in> set (fst (check_docstring_format self s)) \<longleftrightarrow>
     \<not> (\<exists>a b c. s = a @ str ''Purpose:'' @ b @ newline # c)"
  unfolding missing_purpose_search purpose_search ..

text \<open>A text with the token and no newline after it: the violation is reported.\<close>

theorem missing_purpose_iff_no_token_witness:
  "DOCSTRING_MISSING_PURPOSE \<in>
     set (fst (check_docstring_format \<lparr>reported = []\<rparr> (str ''Purpose: x''))) \<and>
   \<not> (\<exists>a b c. str ''Purpose: x'' = a @ str ''Purpose:'' @ b @ newline # c)"
  using missing_purpose_iff_no_token [of "\<lparr>reported = []\<rparr>" "str ''Purpose: x''"]
  by (simp add: eval_defs DOCSTRING_MISSING_PURPOSE_def)

text \<open>
  A text in which no line begins with the token, and whose result does not hold the purpose
  violation once: the token stands in the middle of a line.
\<close>

theorem purpose_line_absent_yet_not_reported:
  "\<not> spec_section_line (str ''Purpose:'') (str ''My Purpose:\<newline>'') \<and>
   count_list (fst (check_docstring_format \<lparr>reported = []\<rparr> (str ''My Purpose:\<newline>'')))
     DOCSTRING_MISSING_PURPOSE \<noteq> 1"
  by (simp add: eval_defs spec_section_line_def line_starts_def DOCSTRING_MISSING_PURPOSE_def
      DOCSTRING_MISSING_TYPE_def DOCSTRING_MISSING_TRIGGER_def)

text \<open>
  C2 (amended): for every docstring text in which no occurrence of the token
  \<^verbatim>\<open>Purpose:\<close> is followed later by a newline, the result holds the purpose violation
  exactly once, whatever the text says about the filter type and the trigger.
\<close>

theorem missing_purpose_exactly_once:
  assumes "\<not> (\<exists>a b c. s = a @ str ''Purpose:'' @ b @ newline # c)"
  shows "count_list (fst (check_docstring_format self s)) DOCSTRING_MISSING_PURPOSE = 1"
proof -
  from assms have "\<not> re_search purpose_pattern s" unfolding purpose_search .
  then show ?thesis using violations_distinct by (simp add: check_result)
qed

text \<open>The third scenario of the specification: type and trigger present, no purpose.\<close>

theorem missing_purpose_exactly_once_witness:
  "\<not> (\<exists>a b c. str ''Filter Type:\<newline>  org.example.v1\<newline>\<newline>Trigger:\<newline>NA\<newline>'' =
        a @ str ''Purpose:'' @ b @ newline # c) \<and>
   count_list (fst (check_docstring_format \<lparr>reported = []\<rparr>
       (str ''Filter Type:\<newline>  org.example.v1\<newline>\<newline>Trigger:\<newline>NA\<newline>'')))
     DOCSTRING_MISSING_PURPOSE = 1"
proof -
  have h: "\<not> (\<exists>a b c. str ''Filter Type:\<newline>  org.example.v1\<newline>\<newline>Trigger:\<newline>NA\<newline>'' =
        a @ str ''Purpose:'' @ b @ newline # c)"
    unfolding purpose_search [symmetric] by (simp add: eval_defs)
  show ?thesis
    using h missing_purpose_exactly_once [OF h, of "\<lparr>reported = []\<rparr>"] by simp
qed

subsection \<open>Concrete scenarios\<close>

text \<open>
  C3: validating the empty docstring returns the three violation kinds in the order
  purpose, type, trigger.
\<close>

theorem empty_docstring_all_missing:
  "fst (check_docstring_format self (str '''')) =
     [DOCSTRING_MISSING_PURPOSE, DOCSTRING_MISSING_TYPE, DOCSTRING_MISSING_TRIGGER]"
  by (simp add: eval_defs)

text \<open>
  C4: the docstring with a purpose, a filter type and the structured trigger list, each
  field on a line of its own, has no violation.
\<close>

theorem structured_trigger_docstring_valid:
  "fst (check_docstring_format self
     (str (''Purpose:\<newline>Does X.\<newline>\<newline>'' @
           ''Filter Type:\<newline>  org.example.v1\<newline>\<newline>'' @
           ''Trigger:\<newline>- Repository: r\<newline>- Path: p\<newline>'' @
           ''- Function or Method: f\<newline>''))) = []"
  by (simp add: eval_defs)

subsection \<open>Shape of the result\<close>

text \<open>
  C5: for every docstring text, the violations of the result stand in the order purpose,
  type, trigger: the result is the list of the three kinds with some of them left out.
  The text decides only which are left out.
\<close>

theorem violations_in_rule_order: "subseq (fst (check_docstring_format self s))
     [DOCSTRING_MISSING_PURPOSE, DOCSTRING_MISSING_TYPE, DOCSTRING_MISSING_TRIGGER]"
  by (simp add: check_result)

text \<open>
  C6: for every docstring text the validation returns a list of at most three elements, all
  among the three violation kinds, none of them twice. The source has no raising branch
  and \<open>check_docstring_format\<close> is a total function.
\<close>

theorem violations_well_formed: "length (fst (check_docstring_format self s)) \<le> 3 \<and>
   set (fst (check_docstring_format self s)) \<subseteq>
     {DOCSTRING_MISSING_PURPOSE, DOCSTRING_MISSING_TYPE, DOCSTRING_MISSING_TRIGGER} \<and>
   distinct (fst (check_docstring_format self s))"
  using violations_distinct by (simp add: check_result)

text \<open>
  C7: a call of the validation leaves the state of the checker as it was, a second call on
  the same text after the first returns the same list, and the list does not depend on the
  state of the checker at all. The text is a value and cannot change.
\<close>

theorem check_docstring_format_stateless:
  "snd (check_docstring_format self docstring) = self \<and>
   fst (check_docstring_format (snd (check_docstring_format self docstring)) docstring) =
     fst (check_docstring_format self docstring) \<and>
   fst (check_docstring_format self2 docstring) = fst (check_docstring_format self docstring)"
  by (simp add: check_docstring_format_def)

subsection \<open>The visitor\<close>

text \<open>
  C8: \<open>visit_classdef\<close> reports nothing unless the host's subtype query for
  \<^verbatim>\<open>openedx_filters.tooling.OpenEdxPublicFilter\<close> holds and the name of the class differs
  from \<^verbatim>\<open>OpenEdxPublicFilter\<close>; for such a class it adds one diagnostic for each violation
  that the validation returns for the docstring (the empty text when there is none), in
  that order, on the node and with the class name as the only argument.
\<close>

theorem visit_classdef_reports:
  "visit_classdef n self =
     (if is_subtype_of n (str ''openedx_filters.tooling.OpenEdxPublicFilter'') \<and>
         name n \<noteq> str ''OpenEdxPublicFilter''
      then self\<lparr>reported := reported self @
             map (\<lambda>m. \<lparr>msgid = m, node = n, args = [name n]\<rparr>)
               (fst (check_docstring_format self
                  (case doc_node n of Some v \<Rightarrow> v | None \<Rightarrow> [])))\<rparr>
      else self)"
  by (simp add: visit_classdef_def report_all_eq check_docstring_format_def Let_def)

text \<open>A subclass without docstring gets the three diagnostics.\<close>

theorem visit_classdef_reports_witness:
  "reported (visit_classdef
      \<lparr>name = str ''MyFilter'',
       is_subtype_of = (\<lambda>q. q = str ''openedx_filters.tooling.OpenEdxPublicFilter''),
       doc_node = None\<rparr> \<lparr>reported = []\<rparr>) =
   map (\<lambda>m. \<lparr>msgid = m,
        node = \<lparr>name = str ''MyFilter'',
          is_subtype_of = (\<lambda>q. q = str ''openedx_filters.tooling.OpenEdxPublicFilter''),
          doc_node = None\<rparr>,
        args = [str ''MyFilter'']\<rparr>)
     [DOCSTRING_MISSING_PURPOSE, DOCSTRING_MISSING_TYPE, DOCSTRING_MISSING_TRIGGER]"
  using visit_classdef_reports [of "\<lparr>name = str ''MyFilter'',
       is_subtype_of = (\<lambda>q. q = str ''openedx_filters.tooling.OpenEdxPublicFilter''),
       doc_node = None\<rparr>" "\<lparr>reported = []\<rparr>"]
  by (simp add: eval_defs)

subsection \<open>The Trigger rule\<close>

text \<open>
  C9: a text that contains \<^verbatim>\<open>Trigger:\<close> and then the fields \<^verbatim>\<open>- Repository:\<close>,
  \<^verbatim>\<open>- Path:\<close> and \<^verbatim>\<open>- Function or Method:\<close>, each with a non-empty content free of
  newlines, satisfies the Trigger rule whatever runs of whitespace (empty, blanks or line
  breaks) separate the parts; the fields need not stand on lines of their own.
\<close>

theorem trigger_list_any_whitespace:
  assumes "list_all is_space w0" "list_all is_space w1" "list_all is_space w2"
    "list_all is_space w3" "list_all is_space w4" "list_all is_space w5"
    "list_all is_space w6" "list_all is_space w7" "list_all is_space w8"
    "list_all is_space w9" "list_all is_space w10"
    and "r \<noteq> []" "newline \<notin> set r" "p \<noteq> []" "newline \<notin> set p"
     "f \<noteq> []" "newline \<notin> set f"
  shows "DOCSTRING_MISSING_TRIGGER \<notin>
     set (fst (check_docstring_format self
       (a @ str ''Trigger:'' @ w0 @
        str ''-'' @ w1 @ str ''Repository:'' @ w2 @ r @ w3 @
        str ''-'' @ w4 @ str ''Path:'' @ w5 @ p @ w6 @
        str ''-'' @ w7 @ str ''Function'' @ w8 @ str ''or'' @ w9 @ str ''Method:'' @ w10 @
        f @ c)))"
proof -
  have "c \<in> set (ends trigger_pattern (str ''Trigger:'' @ w0 @
        str ''-'' @ w1 @ str ''Repository:'' @ w2 @ r @ w3 @
        str ''-'' @ w4 @ str ''Path:'' @ w5 @ p @ w6 @
        str ''-'' @ w7 @ str ''Function'' @ w8 @ str ''or'' @ w9 @ str ''Method:'' @ w10 @
        f @ c))"
    unfolding trigger_pattern_def trigger_list_pattern_def seqs.simps
    by (intro ends_Seq_StrI ends_Seq_Star_SpaceI ends_Seq_Plus_NotNewlineI ends_Alt2I
        ends_Plus_NotNewlineI assms)
  then show ?thesis 
    unfolding missing_trigger_search using re_searchI by blast
qed

text \<open>The whole list on one line, the parts separated by single blanks.\<close>

theorem trigger_list_one_line_witness:
  "list_all is_space (str '' '') \<and>
   str ''r'' \<noteq> [] \<and> newline \<notin> set (str ''r'') \<and>
   str ''p'' \<noteq> [] \<and> newline \<notin> set (str ''p'') \<and>
   str ''f'' \<noteq> [] \<and> newline \<notin> set (str ''f'') \<and>
   DOCSTRING_MISSING_TRIGGER \<notin> set (fst (check_docstring_format \<lparr>reported = []\<rparr>
     (str ''Trigger: - Repository: r - Path: p - Function or Method: f'')))"
proof -
  have sp: "list_all is_space (str '' '')" by (simp add: str_def is_space_def)
  have r: "str ''r'' \<noteq> []" "newline \<notin> set (str ''r'')" 
    "str ''p'' \<noteq> []" "newline \<notin> set (str ''p'')" 
    "str ''f'' \<noteq> []" "newline \<notin> set (str ''f'')" 
    by (simp_all add: str_def newline_def)
  have "str ''Trigger: - Repository: r - Path: p - Function or Method: f'' =
    [] @ str ''Trigger:'' @ str '' '' @
        str ''-'' @ str '' '' @ str ''Repository:'' @ str '' '' @ str ''r'' @ str '' '' @
        str ''-'' @ str '' '' @ str ''Path:'' @ str '' '' @ str ''p'' @ str '' '' @
        str ''-'' @ str '' '' @ str ''Function'' @ str '' '' @ str ''or'' @ str '' '' @ str ''Method:'' @ str '' '' @
        str ''f'' @ []"
    by (simp add: str_def)
  then show ?thesis
    using sp r trigger_list_any_whitespace [OF sp sp sp sp sp sp sp sp sp sp sp r, of "\<lparr>reported = []\<rparr>" "[]" "[]"] by simp
qed

text \<open>
  C10: the alternative \<^verbatim>\<open>NA\<close> of the Trigger rule is matched as a prefix: a text that
  contains \<^verbatim>\<open>Trigger:\<close>, then a run of whitespace (possibly empty), then the two
  characters \<^verbatim>\<open>NA\<close>, satisfies the rule whatever follows them.
\<close>

theorem trigger_na_prefix:
  assumes "list_all is_space w"
  shows "DOCSTRING_MISSING_TRIGGER \<notin>
     set (fst (check_docstring_format self (a @ str ''Trigger:'' @ w @ str ''NA'' @ c)))"
proof -
  have "c \<in> set (ends trigger_pattern (str ''Trigger:'' @ w @ str ''NA'' @ c))"
    unfolding trigger_pattern_def seqs.simps
    by (intro ends_Seq_StrI ends_Seq_Star_SpaceI ends_Alt1I ends_StrI assms)
  then have "re_search trigger_pattern (a @ str ''Trigger:'' @ w @ str ''NA'' @ c)"
    by (rule re_searchI)
  then show ?thesis by (simp only: missing_trigger_search) simp
qed

text \<open>The text \<^verbatim>\<open>Trigger: NAME\<close>.\<close>

theorem trigger_na_prefix_witness:
  "list_all is_space (str '' '') \<and>
   DOCSTRING_MISSING_TRIGGER \<notin> set (fst (check_docstring_format \<lparr>reported = []\<rparr>
     (str ''Trigger: NAME'')))"
proof -
  have sp: "list_all is_space (str '' '')" by (simp add: str_def is_space_def)
  have "str ''Trigger: NAME'' = [] @ str ''Trigger:'' @ str '' '' @ str ''NA'' @ str ''ME''"
    by (simp add: str_def)
  then show ?thesis using sp trigger_na_prefix [OF sp, of "\<lparr>reported = []\<rparr>" "[]" "str ''ME''"] by simp
qed

end
